theory Spec2Isabelle
  imports Complex_Main
begin

section \<open>Errors and dictionaries\<close>

text \<open>
  The exceptions that \<^verbatim>\<open>door_detector.py\<close> can meet are values: a missing dictionary
  key, an index outside a sequence, a division by zero, and a failure raised inside one of
  the external services (detection, face recognition).
\<close>

datatype py_error = KeyError | IndexError | ZeroDivisionError | ServiceError

text \<open>A dict literal is an association list; \<^verbatim>\<open>d[k]\<close> raises KeyError on a missing key.\<close>

definition lookup :: "('k \<times> 'v) list \<Rightarrow> 'k \<Rightarrow> py_error + 'v" where
  "lookup d k = (case map_of d k of None \<Rightarrow> Inl KeyError | Some v \<Rightarrow> Inr v)"

definition sound_files :: "(string \<times> string) list" where
  "sound_files =
     [(''background'', ''toto_africa.mp3''),
      (''friend'', ''me_and_your_mama.mp3.mp3''),
      (''thief'', ''horror-tension-suspense-322304.mp3''),
      (''delivery'', ''dr_alban.mp3'')]"

definition COLOR :: "(string \<times> (nat \<times> nat \<times> nat)) list" where
  "COLOR =
     [(''thief'', (0, 0, 255)),
      (''friend'', (0, 255, 0)),
      (''delivery'', (255, 255, 0)),
      (''noperson'', (255, 255, 255))]"

definition delays :: "(string \<times> int) list" where
  "delays = [(''friend'', 0), (''thief'', 0), (''delivery'', 0), (''noperson'', 0)]"

section \<open>Classification\<close>

text \<open>
  A detection result holds boxes; a box holds its class tensor \<^verbatim>\<open>cls\<close>, whose first
  entry is read by \<^verbatim>\<open>int(box.cls[0])\<close> (the entries are taken as already integral).
\<close>

record box =
  cls :: "int list"

record result =
  boxes :: "box list"

text \<open>
  The external services \<^verbatim>\<open>classify_visitor\<close> calls: \<^verbatim>\<open>model.names\<close> (class index to
  label), the face pipeline of lines 104--106 (\<^verbatim>\<open>cvtColor\<close>, \<^verbatim>\<open>face_locations\<close>,
  \<^verbatim>\<open>face_encodings\<close>: frame to the encodings of the faces in it) and
  \<^verbatim>\<open>compare_faces\<close>. Each call of a service may raise.
\<close>

record ('f, 'e) services =
  names :: "int \<Rightarrow> string option"
  face_encodings :: "'f \<Rightarrow> py_error + 'e list"
  compare_faces :: "'e list \<Rightarrow> 'e \<Rightarrow> py_error + bool list"

definition box_label :: "(int \<Rightarrow> string option) \<Rightarrow> box \<Rightarrow> py_error + string" where
  "box_label nm b =
     (case cls b of
        [] \<Rightarrow> Inl IndexError
      | c # _ \<Rightarrow> (case nm c of None \<Rightarrow> Inl KeyError | Some l \<Rightarrow> Inr l))"

text \<open>The body of the two nested loops of lines 94--97: one label appended per box.\<close>

fun collect_labels :: "(int \<Rightarrow> string option) \<Rightarrow> box list \<Rightarrow> string list \<Rightarrow> py_error + string list" where
  "collect_labels nm [] detected = Inr detected"
| "collect_labels nm (b # bs) detected =
     (case box_label nm b of
        Inl e \<Rightarrow> Inl e
      | Inr l \<Rightarrow> collect_labels nm bs (detected @ [l]))"

fun detect_labels :: "(int \<Rightarrow> string option) \<Rightarrow> result list \<Rightarrow> string list \<Rightarrow> py_error + string list" where
  "detect_labels nm [] detected = Inr detected"
| "detect_labels nm (r # rs) detected =
     (case collect_labels nm (boxes r) detected of
        Inl e \<Rightarrow> Inl e
      | Inr detected' \<Rightarrow> detect_labels nm rs detected')"

text \<open>Lines 107--109: the first encoding with a \<^verbatim>\<open>True\<close> among its comparisons wins.\<close>

fun friend_among :: "('e list \<Rightarrow> 'e \<Rightarrow> py_error + bool list) \<Rightarrow> 'e list \<Rightarrow> 'e list \<Rightarrow> py_error + bool" where
  "friend_among cmp known [] = Inr False"
| "friend_among cmp known (enc # encs) =
     (case cmp known enc of
        Inl e \<Rightarrow> Inl e
      | Inr bs \<Rightarrow> if True \<in> set bs then Inr True else friend_among cmp known encs)"

definition delivery_cues :: "string list" where
  "delivery_cues = [''handbag'', ''backpack'', ''helmet'', ''suit'', ''hat'']"

text \<open>Lines 112--114: the first label that is a delivery cue ends the loop.\<close>

fun cue_among :: "string list \<Rightarrow> bool" where
  "cue_among [] = False"
| "cue_among (label # labels) = (if label \<in> set delivery_cues then True else cue_among labels)"

definition classify_visitor ::
  "('f, 'e) services \<Rightarrow> 'e list \<Rightarrow> 'f \<Rightarrow> result list \<Rightarrow> py_error + string" where
  "classify_visitor svc known_face_encodings frame results =
     (case detect_labels (names svc) results [] of
        Inl e \<Rightarrow> Inl e
      | Inr detected \<Rightarrow>
          if ''person'' \<notin> set detected then Inr ''noperson''
          else
            (case face_encodings svc frame of
               Inl e \<Rightarrow> Inl e
             | Inr encs \<Rightarrow>
                 (case friend_among (compare_faces svc) known_face_encodings encs of
                    Inl e \<Rightarrow> Inl e
                  | Inr True \<Rightarrow> Inr ''friend''
                  | Inr False \<Rightarrow>
                      if cue_among detected then Inr ''delivery'' else Inr ''thief'')))"

section \<open>Sound helpers\<close>

text \<open>
  \<^verbatim>\<open>pygame.mixer.music\<close> is the one music stream of the mixer. The model keeps what the
  program can observe or cause: the file loaded, whether the stream is busy (the answer of
  \<^verbatim>\<open>get_busy()\<close>), the loop count and start position of the last \<^verbatim>\<open>play\<close>, and the log
  of the calls made so far, oldest first. The calls are taken to succeed: \<^verbatim>\<open>stop\<close> leaves
  the stream idle, \<^verbatim>\<open>load\<close> stops what is playing and loads the file, \<^verbatim>\<open>play\<close> starts the
  loaded file. A track that ends by itself is a step of the environment (\<open>track_ends\<close>).
\<close>

datatype mixer_call = Stop | Load string | Play int real

record mixer =
  loaded :: "string option"
  busy :: bool
  loops :: int
  start_pos :: real
  calls :: "mixer_call list"

definition music_stop :: "mixer \<Rightarrow> mixer" where
  "music_stop m = m\<lparr>busy := False, calls := calls m @ [Stop]\<rparr>"

definition music_load :: "string \<Rightarrow> mixer \<Rightarrow> mixer" where
  "music_load file m = m\<lparr>loaded := Some file, busy := False, calls := calls m @ [Load file]\<rparr>"

definition music_play :: "int \<Rightarrow> real \<Rightarrow> mixer \<Rightarrow> mixer" where
  "music_play loop start m =
     m\<lparr>busy := True, loops := loop, start_pos := start, calls := calls m @ [Play loop start]\<rparr>"

definition play_sound :: "string \<Rightarrow> int \<Rightarrow> real \<Rightarrow> mixer \<Rightarrow> mixer" where
  "play_sound file loop start m =
     (if file \<noteq> ''toto_africa.mp3''
      then music_play loop 27.0 (music_load file m)
      else music_play loop start (music_load file m))"

text \<open>
  The module-level variables: the mixer, \<^verbatim>\<open>current_track\<close> (line 46) and the three
  variables of the main loop (lines 123--125). Python's \<^verbatim>\<open>None\<close> is \<open>None\<close>.
\<close>

record ctrl =
  mixer :: mixer
  current_track :: "string option"
  last_event :: "string option"
  event_start_time :: real
  event_played :: bool

text \<open>\<^verbatim>\<open>play_track(name, loop)\<close> calls \<^verbatim>\<open>play_sound\<close> with the default \<^verbatim>\<open>start=0.0\<close>.\<close>

definition play_track :: "string \<Rightarrow> int \<Rightarrow> ctrl \<Rightarrow> py_error + ctrl" where
  "play_track name loop s =
     (let m = music_stop (mixer s) in
      case lookup sound_files name of
        Inl e \<Rightarrow> Inl e
      | Inr file \<Rightarrow> Inr (s\<lparr>mixer := play_sound file loop 0.0 m, current_track := Some name\<rparr>))"

text \<open>The variables as lines 14, 46 and 123--125 set them, and line 58 run on them.\<close>

definition fresh :: ctrl where
  "fresh =
     \<lparr>mixer = \<lparr>loaded = None, busy = False, loops = 0, start_pos = 0, calls = []\<rparr>,
      current_track = None, last_event = None, event_start_time = 0, event_played = False\<rparr>"

definition initialise :: "py_error + ctrl" where
  "initialise = play_track ''background'' (- 1) fresh"

section \<open>Overlay\<close>

text \<open>
  Times are the reals that the floats of \<^verbatim>\<open>time.time()\<close> denote. Python's \<^verbatim>\<open>x % y\<close> on
  floats takes the sign of the divisor and raises on a zero divisor.
\<close>

definition py_mod :: "real \<Rightarrow> real \<Rightarrow> py_error + real" where
  "py_mod x y = (if y = 0 then Inl ZeroDivisionError else Inr (x - y * of_int \<lfloor>x / y\<rfloor>))"

definition BLINK_INTERVAL :: real where
  "BLINK_INTERVAL = 0.5"

definition thief_blink :: "real \<Rightarrow> py_error + bool" where
  "thief_blink now =
     (case py_mod now (2 * BLINK_INTERVAL) of
        Inl e \<Rightarrow> Inl e
      | Inr r \<Rightarrow> Inr (r < BLINK_INTERVAL))"

text \<open>One \<^verbatim>\<open>cv2.putText\<close> call: the text, its origin and its colour.\<close>

record put_text =
  text_of :: string
  org :: "nat \<times> nat"
  color :: "nat \<times> nat \<times> nat"

text \<open>Lines 143--152: the text drawn on the frame this tick, if any.\<close>

definition overlay :: "string \<Rightarrow> real \<Rightarrow> py_error + put_text option" where
  "overlay visitor now =
     (if visitor = ''thief'' then
        (case thief_blink now of
           Inl e \<Rightarrow> Inl e
         | Inr True \<Rightarrow>
             (case lookup COLOR ''thief'' of
                Inl e \<Rightarrow> Inl e
              | Inr c \<Rightarrow> Inr (Some \<lparr>text_of = ''Visitor: thief'', org = (10, 30), color = c\<rparr>))
         | Inr False \<Rightarrow> Inr None)
      else if visitor = ''noperson'' then
        (case lookup COLOR ''noperson'' of
           Inl e \<Rightarrow> Inl e
         | Inr c \<Rightarrow> Inr (Some \<lparr>text_of = ''No person detected'', org = (10, 30), color = c\<rparr>))
      else
        (case lookup COLOR visitor of
           Inl e \<Rightarrow> Inl e
         | Inr c \<Rightarrow> Inr (Some \<lparr>text_of = ''Visitor: '' @ visitor, org = (10, 30), color = c\<rparr>)))"

section \<open>Event handling\<close>

text \<open>Lines 157--161: the category differs from the one of the previous tick.\<close>

definition on_change :: "string \<Rightarrow> real \<Rightarrow> ctrl \<Rightarrow> ctrl" where
  "on_change visitor now s =
     (if Some visitor \<noteq> last_event s
      then s\<lparr>last_event := Some visitor, event_start_time := now, event_played := False,
             mixer := music_stop (mixer s)\<rparr>
      else s)"

text \<open>Lines 163--166.\<close>

definition keep_background :: "ctrl \<Rightarrow> py_error + ctrl" where
  "keep_background s =
     (if current_track s \<noteq> Some ''background'' \<or> \<not> busy (mixer s)
      then play_track ''background'' (- 1) s
      else Inr s)"

text \<open>Lines 170--172; \<^verbatim>\<open>delays[visitor]\<close> is read only when \<^verbatim>\<open>event_played\<close> is false.\<close>

definition start_one_shot :: "string \<Rightarrow> real \<Rightarrow> ctrl \<Rightarrow> py_error + ctrl" where
  "start_one_shot visitor now s =
     (if \<not> event_played s then
        (case lookup delays visitor of
           Inl e \<Rightarrow> Inl e
         | Inr d \<Rightarrow>
             if now - event_start_time s \<ge> of_int d then
               (case play_track visitor 0 s of
                  Inl e \<Rightarrow> Inl e
                | Inr s' \<Rightarrow> Inr (s'\<lparr>event_played := True\<rparr>))
             else Inr s)
      else Inr s)"

text \<open>Lines 175--178.\<close>

definition resume_background :: "real \<Rightarrow> ctrl \<Rightarrow> py_error + ctrl" where
  "resume_background now s =
     (if event_played s \<and> \<not> busy (mixer s) then
        (case play_track ''background'' (- 1) s of
           Inl e \<Rightarrow> Inl e
         | Inr s' \<Rightarrow> Inr (s'\<lparr>event_played := False, event_start_time := now\<rparr>))
      else Inr s)"

text \<open>Lines 163--178: the playback decision of the tick, taken after \<open>on_change\<close>.\<close>

definition playback_decision :: "string \<Rightarrow> real \<Rightarrow> ctrl \<Rightarrow> py_error + ctrl" where
  "playback_decision visitor now s =
     (if visitor = ''noperson'' then keep_background s
      else
        (case start_one_shot visitor now s of
           Inl e \<Rightarrow> Inl e
         | Inr s' \<Rightarrow> resume_background now s'))"

definition event_handling :: "string \<Rightarrow> real \<Rightarrow> ctrl \<Rightarrow> py_error + ctrl" where
  "event_handling visitor now s = playback_decision visitor now (on_change visitor now s)"

section \<open>Executions of the controller\<close>

text \<open>
  Between two ticks the environment may end the track that is playing; nothing else
  changes the mixer behind the program's back.
\<close>

definition track_ends :: "ctrl \<Rightarrow> ctrl" where
  "track_ends s = s\<lparr>mixer := (mixer s)\<lparr>busy := False\<rparr>\<rparr>"

datatype event = Tick string real | TrackEnds

fun exec :: "event list \<Rightarrow> ctrl \<Rightarrow> py_error + ctrl" where
  "exec [] s = Inr s"
| "exec (Tick visitor now # evs) s =
     (case event_handling visitor now s of
        Inl e \<Rightarrow> Inl e
      | Inr s' \<Rightarrow> exec evs s')"
| "exec (TrackEnds # evs) s = exec evs (track_ends s)"

text \<open>The states the controller reaches: line 58, then any sequence of events.\<close>

definition run :: "event list \<Rightarrow> py_error + ctrl" where
  "run evs = (case initialise of Inl e \<Rightarrow> Inl e | Inr s \<Rightarrow> exec evs s)"

text \<open>
  Reading the call log with the most permissive mixer: \<^verbatim>\<open>play\<close> adds the loaded file to
  the tracks that sound, only \<^verbatim>\<open>stop\<close> silences them, \<^verbatim>\<open>load\<close> silences nothing. The
  first component is the file loaded, the second the tracks sounding.
\<close>

fun sounding :: "mixer_call list \<Rightarrow> string option \<times> string list \<Rightarrow> string option \<times> string list" where
  "sounding [] st = st"
| "sounding (Stop # cs) (ld, ts) = sounding cs (ld, [])"
| "sounding (Load file # cs) (ld, ts) = sounding cs (Some file, ts)"
| "sounding (Play loop start # cs) (ld, ts) =
     sounding cs (ld, (case ld of None \<Rightarrow> ts | Some file \<Rightarrow> file # ts))"

text \<open>
  A log in which every \<^verbatim>\<open>load\<close> comes right after a \<^verbatim>\<open>stop\<close> and right before its
  \<^verbatim>\<open>play\<close>, and no \<^verbatim>\<open>play\<close> comes otherwise.
\<close>

fun stop_first :: "mixer_call list \<Rightarrow> bool" where
  "stop_first [] = True"
| "stop_first (Stop # Load file # Play loop start # cs) = stop_first cs"
| "stop_first (Stop # cs) = stop_first cs"
| "stop_first (c # cs) = False"

text \<open>
  The log and the mixer agree: the log has the shape above, the file loaded is the one
  the log loaded last, and the tracks the permissive reading has sounding are none or
  that file alone.
\<close>

definition well_logged :: "mixer \<Rightarrow> bool" where
  "well_logged m \<longleftrightarrow>
     stop_first (calls m)
     \<and> fst (sounding (calls m) (None, [])) = loaded m
     \<and> (snd (sounding (calls m) (None, [])) = []
        \<or> map Some (snd (sounding (calls m) (None, []))) = [loaded m])"

section \<open>The program\<close>

unbundle bit_operations_syntax

text \<open>
  What the start of the program asks its environment: whether the gallery directory
  exists (line 68) and whether the camera opened (line 81). The detection model of line 61
  and the gallery read by lines 72--78 are taken as loaded; the gallery is the parameter
  \<open>known_face_encodings\<close> below.
\<close>

record environment =
  friends_dir :: string
  friends_isdir :: bool
  cam_opened :: bool

text \<open>
  What one iteration of the main loop reads: whether the track playing has ended since the
  previous iteration, \<^verbatim>\<open>cap.read()\<close>, \<^verbatim>\<open>model(frame)\<close>, \<^verbatim>\<open>time.time()\<close> and
  \<^verbatim>\<open>cv2.waitKey(1)\<close>.
\<close>

record 'f tick_input =
  in_track_ended :: bool
  in_ret :: bool
  in_frame :: 'f
  in_detections :: "py_error + result list"
  in_now :: real
  in_key :: int

text \<open>
  How the process ends: an exit status with the lines printed, or an uncaught exception
  (Python then prints a traceback; the status is not 0).
\<close>

datatype outcome = Exited int "string list" | Uncaught py_error

text \<open>
  Lines 133--182 over the inputs of the iterations. \<open>None\<close>: the inputs are used up and
  the loop has not ended. \<open>Some (Inr s)\<close>: a \<^verbatim>\<open>break\<close> left the loop in state \<open>s\<close>.
\<close>

fun main_loop ::
  "('f, 'e) services \<Rightarrow> 'e list \<Rightarrow> 'f tick_input list \<Rightarrow> ctrl \<Rightarrow> (py_error + ctrl) option" where
  "main_loop svc known_face_encodings [] s = None"
| "main_loop svc known_face_encodings (i # inputs) s =
     (let s0 = (if in_track_ended i then track_ends s else s) in
      if \<not> in_ret i then Some (Inr s0)
      else
        (case in_detections i of
           Inl e \<Rightarrow> Some (Inl e)
         | Inr results \<Rightarrow>
             (case classify_visitor svc known_face_encodings (in_frame i) results of
                Inl e \<Rightarrow> Some (Inl e)
              | Inr visitor \<Rightarrow>
                  (case overlay visitor (in_now i) of
                     Inl e \<Rightarrow> Some (Inl e)
                   | Inr shown \<Rightarrow>
                       (case event_handling visitor (in_now i) s0 of
                          Inl e \<Rightarrow> Some (Inl e)
                        | Inr s' \<Rightarrow>
                            if in_key i AND 255 = 27 then Some (Inr s')
                            else main_loop svc known_face_encodings inputs s')))))"

text \<open>
  The script from line 58 to its end. \<^verbatim>\<open>sys.exit(1)\<close> ends the process with status 1;
  running off the end of the script after the loop ends it with status 0.
\<close>

definition program ::
  "environment \<Rightarrow> ('f, 'e) services \<Rightarrow> 'e list \<Rightarrow> 'f tick_input list \<Rightarrow> outcome option" where
  "program env svc known_face_encodings inputs =
     (case initialise of
        Inl e \<Rightarrow> Some (Uncaught e)
      | Inr s \<Rightarrow>
          if \<not> friends_isdir env then
            Some (Exited 1 [''ERROR: friends directory not found: '' @ friends_dir env])
          else if \<not> cam_opened env then
            Some (Exited 1 [''ERROR: could not open webcam''])
          else
            (case main_loop svc known_face_encodings inputs s of
               None \<Rightarrow> None
             | Some (Inl e) \<Rightarrow> Some (Uncaught e)
             | Some (Inr s') \<Rightarrow> Some (Exited 0 [''Press ESC to quit.''])))"

section \<open>Properties of the classifier\<close>

lemma friend_among_none:
  assumes "\<And>enc. enc \<in> set encs \<Longrightarrow> \<exists>bs. cmp known enc = Inr bs \<and> True \<notin> set bs"
  shows "friend_among cmp known encs = Inr False"
  using assms
proof (induction encs)
  case Nil
  then show ?case by simp
next
  case (Cons e encs)
  from Cons.prems [of e] obtain cs where cs: "cmp known e = Inr cs" "True \<notin> set cs" by auto
  from Cons.IH Cons.prems have "friend_among cmp known encs = Inr False" by auto
  with cs show ?case by simp
qed

lemma friend_among_some:
  assumes "\<And>e. e \<in> set encs \<Longrightarrow> \<exists>bs. cmp known e = Inr bs"
    and "enc \<in> set encs" and "cmp known enc = Inr bs" and "True \<in> set bs"
  shows "friend_among cmp known encs = Inr True"
  using assms
proof (induction encs)
  case Nil
  then show ?case by simp
next
  case (Cons e encs)
  from Cons.prems(1) [of e] obtain cs where cs: "cmp known e = Inr cs" by auto
  show ?case
  proof (cases "True \<in> set cs")
    case True
    with cs show ?thesis by simp
  next
    case False
    with cs Cons.prems have "enc \<in> set encs" by auto
    with Cons.IH Cons.prems have "friend_among cmp known encs = Inr True" by auto
    with cs False show ?thesis by simp
  qed
qed

lemma cue_among_iff: "cue_among labels \<longleftrightarrow> (\<exists>l \<in> set labels. l \<in> set delivery_cues)"
  by (induction labels) auto

text \<open>
  Claim C1. When the labels extracted from the detection results do not contain
  \<open>''person''\<close>, \<open>classify_visitor\<close> returns \<open>''noperson''\<close>, whatever the other
  labels are. The face services \<open>fe\<close> and \<open>cmp\<close> are arbitrary, so the answer does not
  depend on them: it is the same when every call of them would raise.
\<close>

theorem classify_noperson:
  assumes "detect_labels nm results [] = Inr detected"
    and "''person'' \<notin> set detected"
  shows "classify_visitor \<lparr>names = nm, face_encodings = fe, compare_faces = cmp\<rparr>
           known frame results = Inr ''noperson''"
  using assms by (simp add: classify_visitor_def)

text \<open>Labels backpack and dog, face services that raise on every call.\<close>

theorem classify_noperson_witness:
  "detect_labels (map_of [(0, ''person''), (16, ''dog''), (24, ''backpack'')])
       [\<lparr>boxes = [\<lparr>cls = [24]\<rparr>, \<lparr>cls = [16]\<rparr>]\<rparr>] [] = Inr [''backpack'', ''dog'']
   \<and> ''person'' \<notin> set [''backpack'', ''dog'']
   \<and> classify_visitor
        \<lparr>names = map_of [(0, ''person''), (16, ''dog''), (24, ''backpack'')],
         face_encodings = (\<lambda>f. Inl ServiceError),
         compare_faces = (\<lambda>known enc. Inl ServiceError)\<rparr>
        ([] :: nat list) () [\<lparr>boxes = [\<lparr>cls = [24]\<rparr>, \<lparr>cls = [16]\<rparr>]\<rparr>] = Inr ''noperson''"
proof -
  have h: "detect_labels (map_of [(0, ''person''), (16, ''dog''), (24, ''backpack'')])
       [\<lparr>boxes = [\<lparr>cls = [24]\<rparr>, \<lparr>cls = [16]\<rparr>]\<rparr>] [] = Inr [''backpack'', ''dog'']"
    by (simp add: box_label_def)
  have p: "''person'' \<notin> set [''backpack'', ''dog'']" by simp
  show ?thesis by (intro conjI h p classify_noperson [OF h p])
qed

text \<open>
  Claim C2. When the extracted labels contain \<open>''person''\<close> and one of the encodings of
  the faces in the frame matches the gallery (the services answering without raising),
  \<open>classify_visitor\<close> returns \<open>''friend''\<close>. Nothing is assumed about the other
  labels: delivery cues among them do not change the answer.
\<close>

theorem classify_friend:
  assumes "detect_labels (names svc) results [] = Inr detected"
    and "''person'' \<in> set detected"
    and "face_encodings svc frame = Inr encs"
    and "\<And>e. e \<in> set encs \<Longrightarrow> \<exists>cs. compare_faces svc known e = Inr cs"
    and "enc \<in> set encs"
    and "compare_faces svc known enc = Inr bs"
    and "True \<in> set bs"
  shows "classify_visitor svc known frame results = Inr ''friend''"
proof -
  have "friend_among (compare_faces svc) known encs = Inr True"
    using assms(4-7) by (rule friend_among_some)
  with assms(1-3) show ?thesis by (simp add: classify_visitor_def)
qed

text \<open>
  Claim C3. When the extracted labels contain \<open>''person''\<close> and no encoding of a face in
  the frame matches the gallery, \<open>classify_visitor\<close> returns \<open>''delivery''\<close> exactly
  when some label is one of handbag, backpack, helmet, suit, hat, and \<open>''thief''\<close>
  exactly when none is.
\<close>

theorem classify_delivery_or_thief:
  assumes "detect_labels (names svc) results [] = Inr detected"
    and "''person'' \<in> set detected"
    and "face_encodings svc frame = Inr encs"
    and "\<And>e. e \<in> set encs \<Longrightarrow> \<exists>cs. compare_faces svc known e = Inr cs \<and> True \<notin> set cs"
  shows "(classify_visitor svc known frame results = Inr ''delivery'' \<longleftrightarrow>
            (\<exists>l \<in> set detected. l \<in> {''handbag'', ''backpack'', ''helmet'', ''suit'', ''hat''}))
       \<and> (classify_visitor svc known frame results = Inr ''thief'' \<longleftrightarrow>
            \<not> (\<exists>l \<in> set detected. l \<in> {''handbag'', ''backpack'', ''helmet'', ''suit'', ''hat''}))"
proof -
  have "friend_among (compare_faces svc) known encs = Inr False"
    using assms(4) by (rule friend_among_none)
  with assms(1-3) have "classify_visitor svc known frame results =
      (if cue_among detected then Inr ''delivery'' else Inr ''thief'')"
    by (simp add: classify_visitor_def)
  moreover have "cue_among detected \<longleftrightarrow>
      (\<exists>l \<in> set detected. l \<in> {''handbag'', ''backpack'', ''helmet'', ''suit'', ''hat''})"
    by (simp add: cue_among_iff delivery_cues_def)
  ultimately show ?thesis by simp
qed


text \<open>Labels backpack and person; the second face of the frame is in the gallery.\<close>

theorem classify_friend_witness:
  "detect_labels (map_of [(0, ''person''), (24, ''backpack'')])
       [\<lparr>boxes = [\<lparr>cls = [24]\<rparr>]\<rparr>, \<lparr>boxes = [\<lparr>cls = [0]\<rparr>]\<rparr>] [] = Inr [''backpack'', ''person'']
   \<and> ''person'' \<in> set [''backpack'', ''person'']
   \<and> True \<in> set (map (\<lambda>k. k = (7::nat)) [7, 9])
   \<and> classify_visitor
        \<lparr>names = map_of [(0, ''person''), (24, ''backpack'')],
         face_encodings = (\<lambda>f. Inr [3, 7]),
         compare_faces = (\<lambda>known enc. Inr (map (\<lambda>k. k = enc) known))\<rparr>
        [7, 9 :: nat] () [\<lparr>boxes = [\<lparr>cls = [24]\<rparr>]\<rparr>, \<lparr>boxes = [\<lparr>cls = [0]\<rparr>]\<rparr>] = Inr ''friend''"
proof -
  let ?svc = "\<lparr>names = map_of [(0::int, ''person''), (24, ''backpack'')],
         face_encodings = (\<lambda>f::unit. Inr [3, 7::nat]),
         compare_faces = (\<lambda>known enc. Inr (map (\<lambda>k. k = enc) known))\<rparr>"
  have h: "detect_labels (map_of [(0, ''person''), (24, ''backpack'')])
       [\<lparr>boxes = [\<lparr>cls = [24]\<rparr>]\<rparr>, \<lparr>boxes = [\<lparr>cls = [0]\<rparr>]\<rparr>] [] = Inr [''backpack'', ''person'']"
    by (simp add: box_label_def)
  then have h': "detect_labels (names ?svc)
       [\<lparr>boxes = [\<lparr>cls = [24]\<rparr>]\<rparr>, \<lparr>boxes = [\<lparr>cls = [0]\<rparr>]\<rparr>] [] = Inr [''backpack'', ''person'']"
    by simp
  have p: "''person'' \<in> set [''backpack'', ''person'']" by simp
  have f: "face_encodings ?svc () = Inr [3, 7]" by simp
  have a: "\<And>e. e \<in> set [3, 7] \<Longrightarrow> \<exists>cs. compare_faces ?svc [7, 9] e = Inr cs" by simp
  have m: "(7::nat) \<in> set [3, 7]" by simp
  have c: "compare_faces ?svc [7, 9] 7 = Inr (map (\<lambda>k. k = (7::nat)) [7, 9])" by simp
  have t: "True \<in> set (map (\<lambda>k. k = (7::nat)) [7, 9])" by simp
  show ?thesis
    by (intro conjI h p t classify_friend [OF h' p f a m c t])
qed

text \<open>Labels person and backpack; the one face of the frame is not in the gallery.\<close>

theorem classify_delivery_or_thief_witness:
  "detect_labels (map_of [(0, ''person''), (24, ''backpack'')])
       [\<lparr>boxes = [\<lparr>cls = [0]\<rparr>, \<lparr>cls = [24]\<rparr>]\<rparr>] [] = Inr [''person'', ''backpack'']
   \<and> ''person'' \<in> set [''person'', ''backpack'']
   \<and> classify_visitor
        \<lparr>names = map_of [(0, ''person''), (24, ''backpack'')],
         face_encodings = (\<lambda>f. Inr [3]),
         compare_faces = (\<lambda>known enc. Inr (map (\<lambda>k. k = enc) known))\<rparr>
        [7, 9 :: nat] () [\<lparr>boxes = [\<lparr>cls = [0]\<rparr>, \<lparr>cls = [24]\<rparr>]\<rparr>] = Inr ''delivery''"
proof -
  let ?svc = "\<lparr>names = map_of [(0::int, ''person''), (24, ''backpack'')],
         face_encodings = (\<lambda>f::unit. Inr [3::nat]),
         compare_faces = (\<lambda>known enc. Inr (map (\<lambda>k. k = enc) known))\<rparr>"
  have h: "detect_labels (map_of [(0, ''person''), (24, ''backpack'')])
       [\<lparr>boxes = [\<lparr>cls = [0]\<rparr>, \<lparr>cls = [24]\<rparr>]\<rparr>] [] = Inr [''person'', ''backpack'']"
    by (simp add: box_label_def)
  then have h': "detect_labels (names ?svc)
       [\<lparr>boxes = [\<lparr>cls = [0]\<rparr>, \<lparr>cls = [24]\<rparr>]\<rparr>] [] = Inr [''person'', ''backpack'']"
    by simp
  have p: "''person'' \<in> set [''person'', ''backpack'']" by simp
  have f: "face_encodings ?svc () = Inr [3]" by simp
  have a: "\<And>e. e \<in> set [3] \<Longrightarrow>
      \<exists>cs. compare_faces ?svc [7, 9] e = Inr cs \<and> True \<notin> set cs" by simp
  have r: "classify_visitor ?svc [7, 9] () [\<lparr>boxes = [\<lparr>cls = [0]\<rparr>, \<lparr>cls = [24]\<rparr>]\<rparr>] = Inr ''delivery''"
    by (rule classify_delivery_or_thief [OF h' p f a, THEN conjunct1, THEN iffD2]) auto
  show ?thesis
    by (intro conjI h p r)
qed

section \<open>Properties of the sound helpers\<close>

lemma lookup_sound_files:
  "lookup sound_files ''background'' = Inr ''toto_africa.mp3''"
  "lookup sound_files ''friend'' = Inr ''me_and_your_mama.mp3.mp3''"
  "lookup sound_files ''thief'' = Inr ''horror-tension-suspense-322304.mp3''"
  "lookup sound_files ''delivery'' = Inr ''dr_alban.mp3''"
  by (simp_all add: lookup_def sound_files_def)

lemma lookup_delays_cases:
  assumes "lookup delays visitor = Inr d"
  shows "d = 0 \<and> (visitor = ''friend'' \<or> visitor = ''thief'' \<or> visitor = ''delivery''
           \<or> visitor = ''noperson'')"
  using assms by (auto simp: lookup_def delays_def split: if_splits)

lemma lookup_delays:
  "lookup delays ''friend'' = Inr 0"
  "lookup delays ''thief'' = Inr 0"
  "lookup delays ''delivery'' = Inr 0"
  by (simp_all add: lookup_def delays_def)

lemma play_sound_background:
  "play_sound ''toto_africa.mp3'' loop start m =
     m\<lparr>loaded := Some ''toto_africa.mp3'', busy := True, loops := loop, start_pos := start,
       calls := calls m @ [Load ''toto_africa.mp3'', Play loop start]\<rparr>"
  by (simp add: play_sound_def music_play_def music_load_def)

lemma play_sound_other:
  "file \<noteq> ''toto_africa.mp3'' \<Longrightarrow> play_sound file loop start m =
     m\<lparr>loaded := Some file, busy := True, loops := loop, start_pos := 27,
       calls := calls m @ [Load file, Play loop 27]\<rparr>"
  by (simp add: play_sound_def music_play_def music_load_def)

lemma play_track_background:
  "play_track ''background'' loop s =
     Inr (s\<lparr>mixer := (mixer s)\<lparr>loaded := Some ''toto_africa.mp3'', busy := True, loops := loop,
              start_pos := 0, calls := calls (mixer s) @ [Stop, Load ''toto_africa.mp3'', Play loop 0]\<rparr>,
            current_track := Some ''background''\<rparr>)"
  by (simp add: play_track_def lookup_sound_files play_sound_background music_stop_def)

lemma play_track_one_shot:
  assumes "name = ''friend'' \<or> name = ''thief'' \<or> name = ''delivery''"
  shows "\<exists>file. lookup sound_files name = Inr file \<and> file \<noteq> ''toto_africa.mp3'' \<and>
     play_track name loop s =
       Inr (s\<lparr>mixer := (mixer s)\<lparr>loaded := Some file, busy := True, loops := loop,
              start_pos := 27, calls := calls (mixer s) @ [Stop, Load file, Play loop 27]\<rparr>,
            current_track := Some name\<rparr>)"
  using assms
  by (auto simp: play_track_def lookup_sound_files play_sound_other music_stop_def)

lemma play_track_shape:
  assumes "play_track name loop s = Inr s'"
  shows "\<exists>file start. s' = s\<lparr>mixer := (mixer s)\<lparr>loaded := Some file, busy := True, loops := loop,
              start_pos := start, calls := calls (mixer s) @ [Stop, Load file, Play loop start]\<rparr>,
            current_track := Some name\<rparr>"
  using assms
  by (auto simp: play_track_def play_sound_def music_play_def music_load_def music_stop_def
      split: sum.splits if_splits)

text \<open>
  Claim C10. \<open>play_sound\<close> starts every file but the background file 27 seconds in,
  whatever start position it is given, and starts the background file at the start
  position given; \<open>play_track\<close> gives none, so the default 0 applies. Hence each of the
  friend, thief and delivery one-shots is played from second 27 of its file.
\<close>

theorem play_sound_offset:
  "(file \<noteq> ''toto_africa.mp3'' \<longrightarrow>
      start_pos (play_sound file loop start m) = 27
      \<and> loaded (play_sound file loop start m) = Some file
      \<and> calls (play_sound file loop start m) = calls m @ [Load file, Play loop 27])
   \<and> start_pos (play_sound ''toto_africa.mp3'' loop start m) = start
   \<and> calls (play_sound ''toto_africa.mp3'' loop start m) =
        calls m @ [Load ''toto_africa.mp3'', Play loop start]
   \<and> (\<exists>s'. play_track ''background'' loop s = Inr s' \<and> start_pos (mixer s') = 0)
   \<and> (name = ''friend'' \<or> name = ''thief'' \<or> name = ''delivery'' \<longrightarrow>
        (\<exists>s' file. play_track name loop s = Inr s' \<and> map_of sound_files name = Some file
           \<and> loaded (mixer s') = Some file \<and> busy (mixer s') \<and> start_pos (mixer s') = 27))"
proof (intro conjI impI)
  assume "name = ''friend'' \<or> name = ''thief'' \<or> name = ''delivery''"
  from play_track_one_shot [OF this, of loop s]
  show "\<exists>s' file. play_track name loop s = Inr s' \<and> map_of sound_files name = Some file
           \<and> loaded (mixer s') = Some file \<and> busy (mixer s') \<and> start_pos (mixer s') = 27"
    by (auto simp: lookup_def split: option.splits)
qed (simp_all add: play_sound_other play_sound_background play_track_background)

text \<open>The delivery one-shot, asked to start at 0, starts at 27.\<close>

theorem play_sound_offset_witness:
  "''dr_alban.mp3'' \<noteq> ''toto_africa.mp3''
   \<and> start_pos (play_sound ''dr_alban.mp3'' 0 0 (mixer fresh)) = 27
   \<and> (\<exists>s' file. play_track ''delivery'' 0 fresh = Inr s' \<and> map_of sound_files ''delivery'' = Some file
           \<and> loaded (mixer s') = Some file \<and> busy (mixer s') \<and> start_pos (mixer s') = 27)"
proof -
  have n: "''dr_alban.mp3'' \<noteq> ''toto_africa.mp3''" by simp
  note t = play_sound_offset [of "''dr_alban.mp3''" 0 0 "mixer fresh" fresh "''delivery''"]
  from t n have a: "start_pos (play_sound ''dr_alban.mp3'' 0 0 (mixer fresh)) = 27" by blast
  from t have b: "\<exists>s' file. play_track ''delivery'' 0 fresh = Inr s' \<and> map_of sound_files ''delivery'' = Some file
           \<and> loaded (mixer s') = Some file \<and> busy (mixer s') \<and> start_pos (mixer s') = 27"
    by blast
  show ?thesis by (intro conjI n a b)
qed

section \<open>Properties of the event handling\<close>

lemma on_change_fields:
  "current_track (on_change visitor now s) = current_track s"
  "loaded (mixer (on_change visitor now s)) = loaded (mixer s)"
  "loops (mixer (on_change visitor now s)) = loops (mixer s)"
  "last_event (on_change visitor now s) = Some visitor"
  by (simp_all add: on_change_def music_stop_def)

lemma on_change_same:
  "last_event s = Some visitor \<Longrightarrow> on_change visitor now s = s"
  by (simp add: on_change_def)

lemma on_change_differs:
  "last_event s \<noteq> Some visitor \<Longrightarrow> on_change visitor now s =
     s\<lparr>last_event := Some visitor, event_start_time := now, event_played := False,
       mixer := (mixer s)\<lparr>busy := False, calls := calls (mixer s) @ [Stop]\<rparr>\<rparr>"
  by (auto simp: on_change_def music_stop_def)

lemma keep_background_shape:
  assumes "keep_background s = Inr s'"
  shows "last_event s' = last_event s \<and> event_start_time s' = event_start_time s
       \<and> event_played s' = event_played s
       \<and> (\<exists>cs. calls (mixer s') = calls (mixer s) @ cs)"
  using assms by (auto simp: keep_background_def play_track_background split: if_splits)

lemma start_one_shot_shape:
  assumes "start_one_shot visitor now s = Inr s'"
  shows "last_event s' = last_event s \<and> event_start_time s' = event_start_time s
       \<and> (\<exists>cs. calls (mixer s') = calls (mixer s) @ cs)"
  using assms
  by (auto simp: start_one_shot_def split: if_splits sum.splits dest!: play_track_shape)

lemma resume_background_shape:
  assumes "resume_background now s = Inr s'"
  shows "last_event s' = last_event s
       \<and> (event_start_time s' = event_start_time s \<or> event_start_time s' = now)
       \<and> (\<exists>cs. calls (mixer s') = calls (mixer s) @ cs)"
  using assms by (auto simp: resume_background_def play_track_background split: if_splits)

lemma playback_decision_shape:
  assumes "playback_decision visitor now s = Inr s'"
  shows "last_event s' = last_event s
       \<and> (event_start_time s' = event_start_time s \<or> event_start_time s' = now)
       \<and> (\<exists>cs. calls (mixer s') = calls (mixer s) @ cs)"
proof (cases "visitor = ''noperson''")
  case True
  with assms have "keep_background s = Inr s'" by (simp add: playback_decision_def)
  from keep_background_shape [OF this] show ?thesis by auto
next
  case False
  with assms obtain s2 where a: "start_one_shot visitor now s = Inr s2"
    and b: "resume_background now s2 = Inr s'"
    by (auto simp: playback_decision_def split: sum.splits)
  from start_one_shot_shape [OF a] resume_background_shape [OF b] show ?thesis by auto
qed

text \<open>
  Claim C4. In a tick whose category differs from \<open>last_event\<close>, lines 157--161 run
  first: they set \<open>last_event\<close> to the category and \<open>event_start_time\<close> to \<open>now\<close>, reset
  \<open>event_played\<close> and stop the mixer (one \<^verbatim>\<open>stop\<close> call, after which it is not busy).
  The playback decision of the tick is taken in the state they leave, and when the tick
  ends \<open>last_event\<close> and \<open>event_start_time\<close> still have these values and the first
  call the tick made to the mixer is that \<^verbatim>\<open>stop\<close>.
\<close>

theorem category_change_resets:
  assumes "last_event s \<noteq> Some visitor"
  shows "last_event (on_change visitor now s) = Some visitor
       \<and> event_start_time (on_change visitor now s) = now
       \<and> \<not> event_played (on_change visitor now s)
       \<and> \<not> busy (mixer (on_change visitor now s))
       \<and> calls (mixer (on_change visitor now s)) = calls (mixer s) @ [Stop]
       \<and> current_track (on_change visitor now s) = current_track s
       \<and> event_handling visitor now s = playback_decision visitor now (on_change visitor now s)
       \<and> (\<forall>s'. event_handling visitor now s = Inr s' \<longrightarrow>
             last_event s' = Some visitor \<and> event_start_time s' = now
             \<and> (\<exists>cs. calls (mixer s') = calls (mixer s) @ Stop # cs))"
proof -
  let ?s1 = "on_change visitor now s"
  have s1: "?s1 = s\<lparr>last_event := Some visitor, event_start_time := now, event_played := False,
       mixer := (mixer s)\<lparr>busy := False, calls := calls (mixer s) @ [Stop]\<rparr>\<rparr>"
    using assms by (rule on_change_differs)
  have "last_event s' = Some visitor \<and> event_start_time s' = now
             \<and> (\<exists>cs. calls (mixer s') = calls (mixer s) @ Stop # cs)"
    if "event_handling visitor now s = Inr s'" for s'
  proof -
    from that have "playback_decision visitor now ?s1 = Inr s'"
      by (simp add: event_handling_def)
    from playback_decision_shape [OF this] show ?thesis
      by (auto simp: s1)
  qed
  then show ?thesis
    by (simp add: s1 event_handling_def)
qed

text \<open>A thief is seen after a tick without a person while the background plays.\<close>

theorem category_change_resets_witness:
  "last_event (on_change ''thief'' 5
      (fresh\<lparr>last_event := Some ''noperson'', event_played := True\<rparr>)) = Some ''thief''
   \<and> event_start_time (on_change ''thief'' 5
      (fresh\<lparr>last_event := Some ''noperson'', event_played := True\<rparr>)) = 5
   \<and> \<not> event_played (on_change ''thief'' 5
      (fresh\<lparr>last_event := Some ''noperson'', event_played := True\<rparr>))
   \<and> calls (mixer (on_change ''thief'' 5
      (fresh\<lparr>last_event := Some ''noperson'', event_played := True\<rparr>))) = [Stop]"
proof -
  have h: "last_event (fresh\<lparr>last_event := Some ''noperson'', event_played := True\<rparr>) \<noteq> Some ''thief''"
    by simp
  have c: "calls (mixer (fresh\<lparr>last_event := Some ''noperson'', event_played := True\<rparr>)) @ [Stop] = [Stop]"
    by (simp add: fresh_def)
  from category_change_resets [OF h, of 5] show ?thesis
    unfolding c by blast
qed

lemma start_one_shot_fires:
  assumes "visitor = ''friend'' \<or> visitor = ''thief'' \<or> visitor = ''delivery''"
    and "\<not> event_played s" and "event_start_time s \<le> now"
  shows "\<exists>file. lookup sound_files visitor = Inr file \<and> file \<noteq> ''toto_africa.mp3'' \<and>
     start_one_shot visitor now s =
       Inr (s\<lparr>mixer := (mixer s)\<lparr>loaded := Some file, busy := True, loops := 0,
              start_pos := 27, calls := calls (mixer s) @ [Stop, Load file, Play 0 27]\<rparr>,
            current_track := Some visitor, event_played := True\<rparr>)"
proof -
  from play_track_one_shot [OF assms(1), of 0 s] obtain snd_file where
    f: "lookup sound_files visitor = Inr snd_file" "snd_file \<noteq> ''toto_africa.mp3''"
    and p: "play_track visitor 0 s =
       Inr (s\<lparr>mixer := (mixer s)\<lparr>loaded := Some snd_file, busy := True, loops := 0,
              start_pos := 27, calls := calls (mixer s) @ [Stop, Load snd_file, Play 0 27]\<rparr>,
            current_track := Some visitor\<rparr>)"
    by blast
  from assms(1) have "lookup delays visitor = Inr 0"
    by (auto simp: lookup_delays)
  with assms(2,3) p have "start_one_shot visitor now s =
       Inr (s\<lparr>mixer := (mixer s)\<lparr>loaded := Some snd_file, busy := True, loops := 0,
              start_pos := 27, calls := calls (mixer s) @ [Stop, Load snd_file, Play 0 27]\<rparr>,
            current_track := Some visitor, event_played := True\<rparr>)"
    by (simp add: start_one_shot_def)
  with f show ?thesis by blast
qed

lemma resume_background_fires:
  assumes "event_played s" and "\<not> busy (mixer s)"
  shows "resume_background now s =
     Inr (s\<lparr>mixer := (mixer s)\<lparr>loaded := Some ''toto_africa.mp3'', busy := True, loops := - 1,
              start_pos := 0,
              calls := calls (mixer s) @ [Stop, Load ''toto_africa.mp3'', Play (- 1) 0]\<rparr>,
            current_track := Some ''background'', event_played := False,
            event_start_time := now\<rparr>)"
  using assms by (simp add: resume_background_def play_track_background)

text \<open>
  Claim C6. In a tick with category friend, delivery or thief, when the test of line 175
  finds \<open>event_played\<close> true and the mixer not busy (\<open>s2\<close> is the state at that line),
  the tick starts the background file from its beginning with loop count \<open>-1\<close>, resets
  \<open>event_played\<close> and sets \<open>event_start_time\<close> to \<open>now\<close>. A later tick with the same
  category, at a time not before \<open>now\<close>, then plays the one-shot of the category again.
\<close>

theorem one_shot_finished_resumes_background:
  assumes "visitor = ''friend'' \<or> visitor = ''delivery'' \<or> visitor = ''thief''"
    and "start_one_shot visitor now (on_change visitor now s) = Inr s2"
    and "event_played s2"
    and "\<not> busy (mixer s2)"
  shows "\<exists>s'. event_handling visitor now s = Inr s'
       \<and> current_track s' = Some ''background''
       \<and> loaded (mixer s') = Some ''toto_africa.mp3''
       \<and> busy (mixer s') \<and> loops (mixer s') = - 1 \<and> start_pos (mixer s') = 0
       \<and> calls (mixer s') = calls (mixer s2) @ [Stop, Load ''toto_africa.mp3'', Play (- 1) 0]
       \<and> \<not> event_played s' \<and> event_start_time s' = now \<and> last_event s' = Some visitor
       \<and> (\<forall>later. now \<le> later \<longrightarrow>
            (\<exists>s''. event_handling visitor later s' = Inr s'' \<and> current_track s'' = Some visitor
               \<and> busy (mixer s'') \<and> loops (mixer s'') = 0 \<and> event_played s''))"
proof -
  let ?s' = "s2\<lparr>mixer := (mixer s2)\<lparr>loaded := Some ''toto_africa.mp3'', busy := True, loops := - 1,
              start_pos := 0,
              calls := calls (mixer s2) @ [Stop, Load ''toto_africa.mp3'', Play (- 1) 0]\<rparr>,
            current_track := Some ''background'', event_played := False,
            event_start_time := now\<rparr>"
  from assms(1) have np: "visitor \<noteq> ''noperson''" by auto
  have r: "resume_background now s2 = Inr ?s'"
    using assms(3,4) by (rule resume_background_fires)
  with assms(2) np have e: "event_handling visitor now s = Inr ?s'"
    by (simp add: event_handling_def playback_decision_def)
  from start_one_shot_shape [OF assms(2)] have le: "last_event s2 = Some visitor"
    by (simp add: on_change_fields)
  then have le': "last_event ?s' = Some visitor" by simp
  have again: "\<exists>s''. event_handling visitor later ?s' = Inr s'' \<and> current_track s'' = Some visitor
               \<and> busy (mixer s'') \<and> loops (mixer s'') = 0 \<and> event_played s''"
    if "now \<le> later" for later
  proof -
    have oc: "on_change visitor later ?s' = ?s'"
      using le' by (rule on_change_same)
    from assms(1) have v: "visitor = ''friend'' \<or> visitor = ''thief'' \<or> visitor = ''delivery''"
      by auto
    have "\<not> event_played ?s'" "event_start_time ?s' \<le> later"
      using that by simp_all
    from start_one_shot_fires [OF v this] obtain s3 where
      s3: "start_one_shot visitor later ?s' = Inr s3" "current_track s3 = Some visitor"
        "busy (mixer s3)" "loops (mixer s3) = 0" "event_played s3"
      by auto
    then have "resume_background later s3 = Inr s3"
      by (simp add: resume_background_def)
    with s3 np oc have "event_handling visitor later ?s' = Inr s3"
      by (simp add: event_handling_def playback_decision_def)
    with s3 show ?thesis by blast
  qed
  show ?thesis
    apply (rule exI [of _ ?s'])
    using e le again by simp
qed


text \<open>The friend one-shot was played and has ended; the friend is still there at time 9.\<close>

theorem one_shot_finished_resumes_background_witness:
  "start_one_shot ''friend'' 9 (on_change ''friend'' 9
       (fresh\<lparr>current_track := Some ''friend'', last_event := Some ''friend'',
              event_start_time := 2, event_played := True\<rparr>))
     = Inr (fresh\<lparr>current_track := Some ''friend'', last_event := Some ''friend'',
              event_start_time := 2, event_played := True\<rparr>)
   \<and> event_played (fresh\<lparr>current_track := Some ''friend'', last_event := Some ''friend'',
              event_start_time := 2, event_played := True\<rparr>)
   \<and> \<not> busy (mixer (fresh\<lparr>current_track := Some ''friend'', last_event := Some ''friend'',
              event_start_time := 2, event_played := True\<rparr>))
   \<and> (\<exists>s'. event_handling ''friend'' 9
          (fresh\<lparr>current_track := Some ''friend'', last_event := Some ''friend'',
              event_start_time := 2, event_played := True\<rparr>) = Inr s'
       \<and> current_track s' = Some ''background'' \<and> busy (mixer s') \<and> loops (mixer s') = - 1
       \<and> \<not> event_played s' \<and> event_start_time s' = 9)"
proof -
  let ?s = "fresh\<lparr>current_track := Some ''friend'', last_event := Some ''friend'',
              event_start_time := 2, event_played := True\<rparr>"
  have v: "''friend'' = ''friend'' \<or> ''friend'' = ''delivery'' \<or> ''friend'' = ''thief''"
    by simp
  have a: "start_one_shot ''friend'' 9 (on_change ''friend'' 9 ?s) = Inr ?s"
    by (simp add: start_one_shot_def on_change_def)
  have b: "event_played ?s" by simp
  have c: "\<not> busy (mixer ?s)" by (simp add: fresh_def)
  from one_shot_finished_resumes_background [OF v a b c]
  have d: "\<exists>s'. event_handling ''friend'' 9 ?s = Inr s'
       \<and> current_track s' = Some ''background'' \<and> busy (mixer s') \<and> loops (mixer s') = - 1
       \<and> \<not> event_played s' \<and> event_start_time s' = 9"
    by blast
  show ?thesis by (intro conjI a b c d)
qed

text \<open>
  In this model the test of line 175 succeeds only in a tick that changes no category and
  starts no one-shot: a one-shot started in the tick leaves the mixer busy.
\<close>

lemma line_175_succeeds_iff:
  assumes "visitor = ''friend'' \<or> visitor = ''delivery'' \<or> visitor = ''thief''"
  shows "(start_one_shot visitor now (on_change visitor now s) = Inr s2
            \<and> event_played s2 \<and> \<not> busy (mixer s2))
     \<longleftrightarrow> (last_event s = Some visitor \<and> event_played s \<and> \<not> busy (mixer s) \<and> s2 = s)"
proof
  assume r: "last_event s = Some visitor \<and> event_played s \<and> \<not> busy (mixer s) \<and> s2 = s"
  then have "on_change visitor now s = s" by (simp add: on_change_same)
  with r show "start_one_shot visitor now (on_change visitor now s) = Inr s2
            \<and> event_played s2 \<and> \<not> busy (mixer s2)"
    by (simp add: start_one_shot_def)
next
  assume l: "start_one_shot visitor now (on_change visitor now s) = Inr s2
            \<and> event_played s2 \<and> \<not> busy (mixer s2)"
  from assms have v: "visitor = ''friend'' \<or> visitor = ''thief'' \<or> visitor = ''delivery''"
    by auto
  then have d: "lookup delays visitor = Inr 0" by (auto simp: lookup_delays)
  have same: "last_event s = Some visitor"
  proof (rule ccontr)
    assume n: "last_event s \<noteq> Some visitor"
    let ?s1 = "on_change visitor now s"
    from n have "\<not> event_played ?s1" "event_start_time ?s1 \<le> now"
      by (simp_all add: on_change_differs)
    from start_one_shot_fires [OF v this] l show False by auto
  qed
  then have oc: "on_change visitor now s = s" by (rule on_change_same)
  have played: "event_played s"
  proof (rule ccontr)
    assume n: "\<not> event_played s"
    show False
    proof (cases "event_start_time s \<le> now")
      case True
      from start_one_shot_fires [OF v n True] l oc show False by auto
    next
      case False
      with n d have "start_one_shot visitor now s = Inr s"
        by (simp add: start_one_shot_def)
      with l oc n show False by simp
    qed
  qed
  then have "start_one_shot visitor now s = Inr s" by (simp add: start_one_shot_def)
  with l oc same played
  show "last_event s = Some visitor \<and> event_played s \<and> \<not> busy (mixer s) \<and> s2 = s"
    by auto
qed

section \<open>Properties of the executions\<close>

lemma initialise_eq:
  "initialise =
     Inr (fresh\<lparr>mixer := \<lparr>loaded = Some ''toto_africa.mp3'', busy = True, loops = - 1,
                          start_pos = 0,
                          calls = [Stop, Load ''toto_africa.mp3'', Play (- 1) 0]\<rparr>,
                current_track := Some ''background''\<rparr>)"
  by (simp add: initialise_def play_track_background fresh_def)

text \<open>While \<open>current_track\<close> names the background, its file is loaded with loop count \<open>-1\<close>.\<close>

lemma play_track_keeps_background:
  assumes "play_track name loop s = Inr s'"
    and "name = ''background'' \<longrightarrow> loop = - 1"
  shows "current_track s' = Some ''background'' \<longrightarrow>
           loaded (mixer s') = Some ''toto_africa.mp3'' \<and> loops (mixer s') = - 1"
proof (cases "name = ''background''")
  case True
  with assms show ?thesis by (auto simp: play_track_background)
next
  case False
  from play_track_shape [OF assms(1)] False show ?thesis by auto
qed

lemma event_handling_keeps_background:
  assumes "event_handling visitor now s = Inr s'"
    and "current_track s = Some ''background'' \<longrightarrow>
           loaded (mixer s) = Some ''toto_africa.mp3'' \<and> loops (mixer s) = - 1"
  shows "current_track s' = Some ''background'' \<longrightarrow>
           loaded (mixer s') = Some ''toto_africa.mp3'' \<and> loops (mixer s') = - 1"
proof -
  let ?s1 = "on_change visitor now s"
  have i1: "current_track ?s1 = Some ''background'' \<longrightarrow>
           loaded (mixer ?s1) = Some ''toto_africa.mp3'' \<and> loops (mixer ?s1) = - 1"
    using assms(2) by (simp add: on_change_fields)
  show ?thesis
  proof (cases "visitor = ''noperson''")
    case True
    with assms(1) have "keep_background ?s1 = Inr s'"
      by (simp add: event_handling_def playback_decision_def)
    with i1 show ?thesis
      by (auto simp: keep_background_def play_track_background split: if_splits)
  next
    case False
    with assms(1) obtain s2 where a: "start_one_shot visitor now ?s1 = Inr s2"
      and b: "resume_background now s2 = Inr s'"
      by (auto simp: event_handling_def playback_decision_def split: sum.splits)
    have i2: "current_track s2 = Some ''background'' \<longrightarrow>
           loaded (mixer s2) = Some ''toto_africa.mp3'' \<and> loops (mixer s2) = - 1"
    proof (cases "s2 = ?s1")
      case True
      with i1 show ?thesis by simp
    next
      case False
      with a obtain d s3 where d: "lookup delays visitor = Inr d"
        and p: "play_track visitor 0 ?s1 = Inr s3" and s2: "s2 = s3\<lparr>event_played := True\<rparr>"
        by (auto simp: start_one_shot_def split: if_splits sum.splits)
      from lookup_delays_cases [OF d] have "visitor \<noteq> ''background''" by auto
      with play_track_keeps_background [OF p] s2 show ?thesis by simp
    qed
    from b i2 show ?thesis
      by (auto simp: resume_background_def play_track_background split: if_splits)
  qed
qed

lemma exec_keeps_background:
  assumes "exec evs s = Inr s'"
    and "current_track s = Some ''background'' \<longrightarrow>
           loaded (mixer s) = Some ''toto_africa.mp3'' \<and> loops (mixer s) = - 1"
  shows "current_track s' = Some ''background'' \<longrightarrow>
           loaded (mixer s') = Some ''toto_africa.mp3'' \<and> loops (mixer s') = - 1"
  using assms
proof (induction evs s rule: exec.induct)
  case (1 s)
  then show ?case by simp
next
  case (2 visitor now evs s)
  from "2.prems"(1) obtain s1 where e: "event_handling visitor now s = Inr s1"
    and r: "exec evs s1 = Inr s'"
    by (auto split: sum.splits)
  from event_handling_keeps_background [OF e "2.prems"(2)] "2.IH" [OF e r]
  show ?case by blast
next
  case (3 evs s)
  from "3.prems" have "exec evs (track_ends s) = Inr s'" by simp
  moreover have "current_track (track_ends s) = Some ''background'' \<longrightarrow>
      loaded (mixer (track_ends s)) = Some ''toto_africa.mp3'' \<and> loops (mixer (track_ends s)) = - 1"
    using "3.prems"(2) by (simp add: track_ends_def)
  ultimately show ?case by (rule "3.IH")
qed

lemma run_keeps_background:
  assumes "run evs = Inr s"
  shows "current_track s = Some ''background'' \<longrightarrow>
           loaded (mixer s) = Some ''toto_africa.mp3'' \<and> loops (mixer s) = - 1"
proof -
  let ?s0 = "fresh\<lparr>mixer := \<lparr>loaded = Some ''toto_africa.mp3'', busy = True, loops = - 1,
                          start_pos = 0,
                          calls = [Stop, Load ''toto_africa.mp3'', Play (- 1) 0]\<rparr>,
                current_track := Some ''background''\<rparr>"
  from assms have e: "exec evs ?s0 = Inr s"
    by (simp add: run_def initialise_eq)
  have "current_track ?s0 = Some ''background'' \<longrightarrow>
           loaded (mixer ?s0) = Some ''toto_africa.mp3'' \<and> loops (mixer ?s0) = - 1"
    by simp
  with e show ?thesis by (rule exec_keeps_background)
qed

text \<open>
  Claim C5. In every state the controller reaches, a tick whose category is
  \<open>''noperson''\<close> ends with the background as \<open>current_track\<close>, its file loaded and
  the mixer busy with loop count \<open>-1\<close>. When, after lines 157--161, the background is not
  the current track or the mixer is not busy, the tick restarts the background with loop
  count \<open>-1\<close>; otherwise it leaves the playing background alone.
\<close>

theorem noperson_background_loops:
  assumes "run evs = Inr s"
  shows "\<exists>s'. event_handling ''noperson'' now s = Inr s'
       \<and> current_track s' = Some ''background''
       \<and> loaded (mixer s') = Some ''toto_africa.mp3''
       \<and> busy (mixer s') \<and> loops (mixer s') = - 1
       \<and> (if current_track (on_change ''noperson'' now s) \<noteq> Some ''background''
              \<or> \<not> busy (mixer (on_change ''noperson'' now s))
           then calls (mixer s') = calls (mixer (on_change ''noperson'' now s))
                  @ [Stop, Load ''toto_africa.mp3'', Play (- 1) 0]
           else s' = on_change ''noperson'' now s)"
proof -
  let ?s1 = "on_change ''noperson'' now s"
  from run_keeps_background [OF assms]
  have i1: "current_track ?s1 = Some ''background'' \<longrightarrow>
           loaded (mixer ?s1) = Some ''toto_africa.mp3'' \<and> loops (mixer ?s1) = - 1"
    by (simp add: on_change_fields)
  have e: "event_handling ''noperson'' now s = keep_background ?s1"
    by (simp add: event_handling_def playback_decision_def)
  show ?thesis
  proof (cases "current_track ?s1 \<noteq> Some ''background'' \<or> \<not> busy (mixer ?s1)")
    case True
    then have "keep_background ?s1 = play_track ''background'' (- 1) ?s1"
      by (simp add: keep_background_def)
    with e True show ?thesis
      by (simp add: play_track_background)
  next
    case False
    then have "keep_background ?s1 = Inr ?s1"
      by (simp add: keep_background_def)
    with e False i1 show ?thesis by simp
  qed
qed


text \<open>A thief is seen, the alarm ends, then nobody is seen.\<close>

theorem noperson_background_loops_witness:
  "\<exists>s. run [Tick ''thief'' 3, TrackEnds] = Inr s
     \<and> current_track s = Some ''thief'' \<and> \<not> busy (mixer s)
     \<and> (\<exists>s'. event_handling ''noperson'' 4 s = Inr s'
           \<and> current_track s' = Some ''background''
           \<and> loaded (mixer s') = Some ''toto_africa.mp3''
           \<and> busy (mixer s') \<and> loops (mixer s') = - 1)"
proof -
  have "\<exists>s. run [Tick ''thief'' 3, TrackEnds] = Inr s
     \<and> current_track s = Some ''thief'' \<and> \<not> busy (mixer s)"
    by (simp add: run_def initialise_eq event_handling_def playback_decision_def
        on_change_def start_one_shot_def resume_background_def lookup_delays
        play_track_def lookup_sound_files play_sound_def music_stop_def music_load_def
        music_play_def track_ends_def fresh_def)
  then obtain s where r: "run [Tick ''thief'' 3, TrackEnds] = Inr s"
    and c: "current_track s = Some ''thief''" "\<not> busy (mixer s)"
    by blast
  from noperson_background_loops [OF r, of 4] r c show ?thesis
    by blast
qed

lemma stop_first_Stop: "stop_first cs \<Longrightarrow> stop_first (Stop # cs)"
  by (cases cs rule: stop_first.cases) simp_all

lemma stop_first_append:
  "stop_first xs \<Longrightarrow> stop_first ys \<Longrightarrow> stop_first (xs @ ys)"
  by (induction xs rule: stop_first.induct) (simp_all add: stop_first_Stop)


lemma sounding_stop_first:
  "stop_first cs \<Longrightarrow> length ts \<le> 1 \<Longrightarrow> length (snd (sounding cs (ld, ts))) \<le> 1"
  by (induction cs arbitrary: ld ts rule: stop_first.induct) simp_all


lemma sounding_append: "sounding (xs @ ys) st = sounding ys (sounding xs st)"
  by (induction xs st rule: sounding.induct) simp_all

lemma well_logged_stop: "well_logged m \<Longrightarrow> well_logged (music_stop m)"
  by (cases "sounding (calls m) (None, [])")
    (simp add: well_logged_def music_stop_def stop_first_append sounding_append)

lemma well_logged_play:
  "well_logged m \<Longrightarrow> well_logged (play_sound fl loop start (music_stop m))"
  by (cases "sounding (calls m) (None, [])")
    (simp add: well_logged_def music_stop_def play_sound_def music_load_def music_play_def
      stop_first_append sounding_append)

lemma well_logged_idle: "well_logged m \<Longrightarrow> well_logged (m\<lparr>busy := False\<rparr>)"
  by (simp add: well_logged_def)

lemma play_track_well_logged:
  assumes "play_track name loop s = Inr s'" and "well_logged (mixer s)"
  shows "well_logged (mixer s')"
  using assms by (auto simp: play_track_def well_logged_play split: sum.splits)

lemma on_change_well_logged:
  assumes "well_logged (mixer s)"
  shows "well_logged (mixer (on_change visitor now s))"
  using assms by (simp add: on_change_def well_logged_stop)

lemma playback_decision_well_logged:
  assumes "playback_decision visitor now s = Inr s'" and "well_logged (mixer s)"
  shows "well_logged (mixer s')"
proof (cases "visitor = ''noperson''")
  case True
  with assms show ?thesis
    by (auto simp: playback_decision_def keep_background_def split: if_splits
        dest: play_track_well_logged)
next
  case False
  with assms(1) obtain s2 where a: "start_one_shot visitor now s = Inr s2"
    and b: "resume_background now s2 = Inr s'"
    by (auto simp: playback_decision_def split: sum.splits)
  from a assms(2) have "well_logged (mixer s2)"
    by (auto simp: start_one_shot_def split: if_splits sum.splits dest: play_track_well_logged)
  with b show ?thesis
    by (auto simp: resume_background_def split: if_splits sum.splits dest: play_track_well_logged)
qed

lemma exec_well_logged:
  assumes "exec evs s = Inr s'" and "well_logged (mixer s)"
  shows "well_logged (mixer s')"
  using assms
proof (induction evs s rule: exec.induct)
  case (1 s)
  then show ?case by simp
next
  case (2 visitor now evs s)
  from "2.prems"(1) obtain s1 where e: "event_handling visitor now s = Inr s1"
    and r: "exec evs s1 = Inr s'"
    by (auto split: sum.splits)
  from e have "playback_decision visitor now (on_change visitor now s) = Inr s1"
    by (simp add: event_handling_def)
  then have "well_logged (mixer s1)"
    using on_change_well_logged [OF "2.prems"(2)] by (rule playback_decision_well_logged)
  with "2.IH" [OF e r] show ?case .
next
  case (3 evs s)
  from "3.prems" have "exec evs (track_ends s) = Inr s'" by simp
  moreover have "well_logged (mixer (track_ends s))"
    using "3.prems"(2) by (simp add: track_ends_def well_logged_idle)
  ultimately show ?case by (rule "3.IH")
qed

lemma run_well_logged:
  assumes "run evs = Inr s"
  shows "well_logged (mixer s)"
proof -
  let ?s0 = "fresh\<lparr>mixer := \<lparr>loaded = Some ''toto_africa.mp3'', busy = True, loops = - 1,
                          start_pos = 0,
                          calls = [Stop, Load ''toto_africa.mp3'', Play (- 1) 0]\<rparr>,
                current_track := Some ''background''\<rparr>"
  from assms have e: "exec evs ?s0 = Inr s"
    by (simp add: run_def initialise_eq)
  have "well_logged (mixer ?s0)"
    by (simp add: well_logged_def)
  with e show ?thesis by (rule exec_well_logged)
qed


lemma event_handling_change_calls:
  assumes "last_event s \<noteq> Some visitor" and "event_handling visitor now s = Inr s'"
  shows "\<exists>cs. calls (mixer s') = calls (mixer s) @ Stop # cs"
proof -
  from assms(2) have "playback_decision visitor now (on_change visitor now s) = Inr s'"
    by (simp add: event_handling_def)
  from playback_decision_shape [OF this] show ?thesis
    by (auto simp: on_change_differs [OF assms(1)])
qed

text \<open>
  Claim C7. In every state the controller reaches, the log of mixer calls has every
  \<^verbatim>\<open>load\<close> right after a \<^verbatim>\<open>stop\<close> and right before its \<^verbatim>\<open>play\<close>, and even for a mixer
  that silences nothing on \<^verbatim>\<open>load\<close> or \<^verbatim>\<open>play\<close> at most one track sounds: none, or the
  file loaded. \<open>play_track\<close> always calls \<^verbatim>\<open>stop\<close>, \<^verbatim>\<open>load\<close>, \<^verbatim>\<open>play\<close> in this order, and
  a tick that changes the category calls \<^verbatim>\<open>stop\<close> before any other call.
\<close>

theorem one_track_at_a_time:
  assumes "run evs = Inr s"
  shows "stop_first (calls (mixer s))
       \<and> length (snd (sounding (calls (mixer s)) (None, []))) \<le> 1
       \<and> (snd (sounding (calls (mixer s)) (None, [])) = []
          \<or> map Some (snd (sounding (calls (mixer s)) (None, []))) = [loaded (mixer s)])
       \<and> (\<forall>name loop t t'. play_track name loop t = Inr t' \<longrightarrow>
            (\<exists>fl start. calls (mixer t') = calls (mixer t) @ [Stop, Load fl, Play loop start]))
       \<and> (\<forall>visitor now s'. last_event s \<noteq> Some visitor
              \<and> event_handling visitor now s = Inr s' \<longrightarrow>
            (\<exists>cs. calls (mixer s') = calls (mixer s) @ Stop # cs))"
proof -
  from run_well_logged [OF assms] have w: "well_logged (mixer s)" .
  then have a: "stop_first (calls (mixer s))"
    and c: "snd (sounding (calls (mixer s)) (None, [])) = []
          \<or> map Some (snd (sounding (calls (mixer s)) (None, []))) = [loaded (mixer s)]"
    by (simp_all add: well_logged_def)
  from a have b: "length (snd (sounding (calls (mixer s)) (None, []))) \<le> 1"
    by (rule sounding_stop_first) simp
  have d: "\<exists>fl start. calls (mixer t') = calls (mixer t) @ [Stop, Load fl, Play loop start]"
    if "play_track name loop t = Inr t'" for name loop t t'
    using play_track_shape [OF that] by auto
  have e: "\<exists>cs. calls (mixer s') = calls (mixer s) @ Stop # cs"
    if "last_event s \<noteq> Some visitor \<and> event_handling visitor now s = Inr s'"
    for visitor now s'
    using that event_handling_change_calls by blast
  from a b c d e show ?thesis by blast
qed

text \<open>A friend is seen, then a thief while the friend's track still plays.\<close>

theorem one_track_at_a_time_witness:
  "\<exists>s. run [Tick ''friend'' 1, Tick ''thief'' 2] = Inr s
     \<and> calls (mixer s) =
         [Stop, Load ''toto_africa.mp3'', Play (- 1) 0,
          Stop, Stop, Load ''me_and_your_mama.mp3.mp3'', Play 0 27,
          Stop, Stop, Load ''horror-tension-suspense-322304.mp3'', Play 0 27]
     \<and> stop_first (calls (mixer s))
     \<and> length (snd (sounding (calls (mixer s)) (None, []))) \<le> 1"
proof -
  have "\<exists>s. run [Tick ''friend'' 1, Tick ''thief'' 2] = Inr s
     \<and> calls (mixer s) =
         [Stop, Load ''toto_africa.mp3'', Play (- 1) 0,
          Stop, Stop, Load ''me_and_your_mama.mp3.mp3'', Play 0 27,
          Stop, Stop, Load ''horror-tension-suspense-322304.mp3'', Play 0 27]"
    by (simp add: run_def initialise_eq event_handling_def playback_decision_def
        on_change_def start_one_shot_def resume_background_def lookup_delays
        play_track_def lookup_sound_files play_sound_def music_stop_def music_load_def
        music_play_def fresh_def)
  then obtain s where r: "run [Tick ''friend'' 1, Tick ''thief'' 2] = Inr s"
    and c: "calls (mixer s) =
         [Stop, Load ''toto_africa.mp3'', Play (- 1) 0,
          Stop, Stop, Load ''me_and_your_mama.mp3.mp3'', Play 0 27,
          Stop, Stop, Load ''horror-tension-suspense-322304.mp3'', Play 0 27]"
    by blast
  from one_track_at_a_time [OF r]
  have "stop_first (calls (mixer s))"
    "length (snd (sounding (calls (mixer s)) (None, []))) \<le> 1"
    by blast+
  with r c show ?thesis by blast
qed

section \<open>Properties of the overlay\<close>

lemma py_mod_one: "py_mod x 1 = Inr (frac x)"
  by (simp add: py_mod_def frac_def)

lemma thief_blink_frac: "thief_blink now = Inr (frac now < 1 / 2)"
  by (simp add: thief_blink_def BLINK_INTERVAL_def py_mod_one)

lemma frac_half_toggles: "frac (x + 1 / 2) < 1 / 2 \<longleftrightarrow> \<not> frac x < (1 / 2 :: real)"
proof -
  have h: "frac (1 / 2 :: real) = 1 / 2"
    by (simp add: frac_eq)
  have "frac x < 1" by (rule frac_lt_1)
  moreover have "0 \<le> frac x" by (rule frac_ge_0)
  ultimately show ?thesis
    by (auto simp: frac_add h not_less)
qed

lemma lookup_COLOR:
  "lookup COLOR ''thief'' = Inr (0, 0, 255)"
  "lookup COLOR ''friend'' = Inr (0, 255, 0)"
  "lookup COLOR ''delivery'' = Inr (255, 255, 0)"
  "lookup COLOR ''noperson'' = Inr (255, 255, 255)"
  by (simp_all add: lookup_def COLOR_def)

text \<open>
  Claim C8. With times read as reals, \<^verbatim>\<open>now % (2 * 0.5)\<close> is the fractional part of
  \<open>now\<close>. For a thief the text is drawn exactly when that is below \<open>1/2\<close>, so it is
  drawn at \<open>now\<close> exactly when it is not drawn half a time unit later. For the friend,
  delivery and noperson categories the text is drawn at every time.
\<close>

theorem thief_overlay_blinks:
  "overlay ''thief'' now =
     Inr (if frac now < 1 / 2
          then Some \<lparr>text_of = ''Visitor: thief'', org = (10, 30), color = (0, 0, 255)\<rparr>
          else None)
   \<and> ((\<exists>t. overlay ''thief'' now = Inr (Some t)) \<longleftrightarrow> frac now < 1 / 2)
   \<and> ((\<exists>t. overlay ''thief'' (now + 1 / 2) = Inr (Some t)) \<longleftrightarrow>
        \<not> (\<exists>t. overlay ''thief'' now = Inr (Some t)))
   \<and> overlay ''noperson'' now =
       Inr (Some \<lparr>text_of = ''No person detected'', org = (10, 30), color = (255, 255, 255)\<rparr>)
   \<and> overlay ''friend'' now =
       Inr (Some \<lparr>text_of = ''Visitor: friend'', org = (10, 30), color = (0, 255, 0)\<rparr>)
   \<and> overlay ''delivery'' now =
       Inr (Some \<lparr>text_of = ''Visitor: delivery'', org = (10, 30), color = (255, 255, 0)\<rparr>)"
proof -
  have t: "overlay ''thief'' x =
     Inr (if frac x < 1 / 2
          then Some \<lparr>text_of = ''Visitor: thief'', org = (10, 30), color = (0, 0, 255)\<rparr>
          else None)" for x
    by (simp add: overlay_def thief_blink_frac lookup_COLOR)
  have i: "(\<exists>d. overlay ''thief'' x = Inr (Some d)) \<longleftrightarrow> frac x < 1 / 2" for x
    by (simp add: t)
  have "(\<exists>d. overlay ''thief'' (now + 1 / 2) = Inr (Some d)) \<longleftrightarrow>
        \<not> (\<exists>d. overlay ''thief'' now = Inr (Some d))"
    unfolding i by (rule frac_half_toggles)
  moreover have "overlay ''noperson'' now =
       Inr (Some \<lparr>text_of = ''No person detected'', org = (10, 30), color = (255, 255, 255)\<rparr>)"
    "overlay ''friend'' now =
       Inr (Some \<lparr>text_of = ''Visitor: friend'', org = (10, 30), color = (0, 255, 0)\<rparr>)"
    "overlay ''delivery'' now =
       Inr (Some \<lparr>text_of = ''Visitor: delivery'', org = (10, 30), color = (255, 255, 0)\<rparr>)"
    by (simp_all add: overlay_def lookup_COLOR)
  ultimately show ?thesis using t [of now] i [of now] by blast
qed

text \<open>At time 7.25 the thief text is drawn, at time 7.75 it is not.\<close>

theorem thief_overlay_blinks_witness:
  "overlay ''thief'' 7.25 =
     Inr (Some \<lparr>text_of = ''Visitor: thief'', org = (10, 30), color = (0, 0, 255)\<rparr>)
   \<and> overlay ''thief'' 7.75 = Inr None"
proof -
  have a: "frac (7.25 :: real) < 1 / 2" and b: "\<not> frac (7.75 :: real) < 1 / 2"
    by (simp_all add: frac_def)
  from thief_overlay_blinks [of "7.25"] thief_overlay_blinks [of "7.75"] a b
  show ?thesis by simp
qed

section \<open>Properties of the program\<close>

lemma main_loop_read_fails:
  "\<not> in_ret i \<Longrightarrow> main_loop svc known (i # inputs) s =
     Some (Inr (if in_track_ended i then track_ends s else s))"
  by simp

lemma program_loop:
  assumes "friends_isdir env" and "cam_opened env"
  shows "program env svc known inputs =
     (case main_loop svc known inputs
         (fresh\<lparr>mixer := \<lparr>loaded = Some ''toto_africa.mp3'', busy = True, loops = - 1,
                          start_pos = 0,
                          calls = [Stop, Load ''toto_africa.mp3'', Play (- 1) 0]\<rparr>,
                current_track := Some ''background''\<rparr>) of
        None \<Rightarrow> None
      | Some (Inl e) \<Rightarrow> Some (Uncaught e)
      | Some (Inr s') \<Rightarrow> Some (Exited 0 [''Press ESC to quit.'']))"
  using assms by (simp add: program_def initialise_eq)

text \<open>
  Claim C9. When the gallery directory is missing or the camera did not open, the program
  prints one line and ends with exit status 1, whatever the inputs of the loop would be:
  the outcome is the one for no inputs at all, on which the loop, once entered, cannot
  end. When both checks pass and a \<^verbatim>\<open>break\<close> ends the loop, the program ends with exit
  status 0.
\<close>

theorem startup_exit_status:
  "(\<not> friends_isdir env \<longrightarrow>
      program env svc known inputs =
        Some (Exited 1 [''ERROR: friends directory not found: '' @ friends_dir env]))
   \<and> (friends_isdir env \<and> \<not> cam_opened env \<longrightarrow>
      program env svc known inputs = Some (Exited 1 [''ERROR: could not open webcam'']))
   \<and> (\<not> friends_isdir env \<or> \<not> cam_opened env \<longrightarrow>
      (\<exists>msg. msg \<noteq> [] \<and> program env svc known inputs = Some (Exited 1 [msg]))
      \<and> program env svc known inputs = program env svc known [])
   \<and> (friends_isdir env \<and> cam_opened env \<longrightarrow> program env svc known [] = None)
   \<and> (friends_isdir env \<and> cam_opened env \<longrightarrow>
      (\<forall>s s'. initialise = Inr s \<and> main_loop svc known inputs s = Some (Inr s') \<longrightarrow>
         program env svc known inputs = Some (Exited 0 [''Press ESC to quit.''])))"
  by (auto simp: program_def initialise_eq)


text \<open>
  No gallery directory: status 1. Directory and camera present, the first frame shows
  nobody and the key read is Escape with a high bit set: status 0.
\<close>

theorem startup_exit_status_witness:
  "program \<lparr>friends_dir = ''/app/friends'', friends_isdir = False, cam_opened = True\<rparr>
       \<lparr>names = (\<lambda>c. None), face_encodings = (\<lambda>f. Inr []),
        compare_faces = (\<lambda>known enc. Inr [])\<rparr> ([] :: nat list)
       [\<lparr>in_track_ended = False, in_ret = True, in_frame = (), in_detections = Inr [],
         in_now = 1, in_key = 1048603\<rparr>]
     = Some (Exited 1 [''ERROR: friends directory not found: /app/friends''])
   \<and> program \<lparr>friends_dir = ''/app/friends'', friends_isdir = True, cam_opened = True\<rparr>
       \<lparr>names = (\<lambda>c. None), face_encodings = (\<lambda>f. Inr []),
        compare_faces = (\<lambda>known enc. Inr [])\<rparr> ([] :: nat list)
       [\<lparr>in_track_ended = False, in_ret = True, in_frame = (), in_detections = Inr [],
         in_now = 1, in_key = 1048603\<rparr>]
     = Some (Exited 0 [''Press ESC to quit.''])"
proof -
  let ?svc = "\<lparr>names = (\<lambda>c. None), face_encodings = (\<lambda>f::unit. Inr []),
        compare_faces = (\<lambda>known enc::nat. Inr [])\<rparr>"
  let ?inputs = "[\<lparr>in_track_ended = False, in_ret = True, in_frame = (), in_detections = Inr [],
         in_now = 1, in_key = 1048603\<rparr>]"
  let ?bad = "\<lparr>friends_dir = ''/app/friends'', friends_isdir = False, cam_opened = True\<rparr>"
  let ?good = "\<lparr>friends_dir = ''/app/friends'', friends_isdir = True, cam_opened = True\<rparr>"
  have k: "(1048603 :: int) AND 255 = 27" by simp
  have "\<exists>s s'. initialise = Inr s \<and> main_loop ?svc [] ?inputs s = Some (Inr s')"
    by (simp add: initialise_eq classify_visitor_def overlay_def lookup_COLOR
        event_handling_def playback_decision_def on_change_def keep_background_def
        play_track_background music_stop_def k)
  then obtain s s' where l: "initialise = Inr s \<and> main_loop ?svc [] ?inputs s = Some (Inr s')"
    by blast
  note t = startup_exit_status [of _ ?svc "[]" ?inputs]
  have a: "program ?bad ?svc [] ?inputs =
      Some (Exited 1 [''ERROR: friends directory not found: /app/friends''])"
    using t [of ?bad] by simp
  have b: "program ?good ?svc [] ?inputs = Some (Exited 0 [''Press ESC to quit.''])"
    using t [of ?good] l by simp blast
  show ?thesis by (intro conjI a b)
qed

text \<open>Every state in which the main loop ends is one that \<open>exec\<close> reaches.\<close>

lemma main_loop_exec:
  assumes "main_loop svc known inputs s = Some (Inr s')"
  shows "\<exists>evs. exec evs s = Inr s'"
  using assms
proof (induction inputs arbitrary: s)
  case Nil
  then show ?case by simp
next
  case (Cons i inputs)
  let ?s0 = "if in_track_ended i then track_ends s else s"
  have pre: "\<exists>evs. exec (evs @ rest) s = exec rest ?s0" for rest
  proof (cases "in_track_ended i")
    case True
    then have "exec ([TrackEnds] @ rest) s = exec rest ?s0" by simp
    then show ?thesis by blast
  next
    case False
    then have "exec ([] @ rest) s = exec rest ?s0" by simp
    then show ?thesis by blast
  qed
  show ?case
  proof (cases "in_ret i")
    case False
    with Cons.prems have "s' = ?s0" by simp
    with pre [of "[]"] show ?thesis by auto
  next
    case True
    with Cons.prems obtain visitor s1 where
      e: "event_handling visitor (in_now i) ?s0 = Inr s1"
      and r: "(if in_key i AND 255 = 27 then Some (Inr s1) else main_loop svc known inputs s1)
               = Some (Inr s')"
      by (auto simp: Let_def split: sum.splits)
    have "\<exists>evs. exec evs s1 = Inr s'"
    proof (cases "in_key i AND 255 = 27")
      case True
      with r have "exec [] s1 = Inr s'" by simp
      then show ?thesis by blast
    next
      case False
      with r have "main_loop svc known inputs s1 = Some (Inr s')" by simp
      then show ?thesis by (rule Cons.IH)
    qed
    then obtain evs where "exec evs s1 = Inr s'" by blast
    with e have "exec (Tick visitor (in_now i) # evs) ?s0 = Inr s'" by simp
    with pre [of "Tick visitor (in_now i) # evs"] show ?thesis by metis
  qed
qed

end
